theory Spec2Isabelle
  imports Main "HOL-Library.Sublist"
begin

section \<open>Python strings as lists of code points\<close>

text \<open>
  A Python \<open>str\<close> is a sequence of Unicode code points; \<open>len\<close>, slicing, \<open>in\<close> and the
  \<open>re\<close> module all count code points. A string is therefore a list of code points, and
  an ASCII literal of the source is written \<open>ustr ''...''\<close>.
\<close>

type_synonym ustring = "nat list"

definition ustr :: "string \<Rightarrow> ustring" where
  "ustr s = map of_char s"

text \<open>
  \<open>str.isspace\<close>, the class \<open>\s\<close> of a \<open>str\<close> pattern and the characters removed by
  \<open>str.strip()\<close> are the same set of code points in CPython.
\<close>

definition isspace :: "nat \<Rightarrow> bool" where
  "isspace c \<longleftrightarrow>
     (9 \<le> c \<and> c \<le> 13) \<or> (28 \<le> c \<and> c \<le> 32) \<or> c = 133 \<or> c = 160 \<or> c = 5760 \<or>
     (8192 \<le> c \<and> c \<le> 8202) \<or> c = 8232 \<or> c = 8233 \<or> c = 8239 \<or> c = 8287 \<or> c = 12288"

text \<open>\<open>sub in s\<close> on strings: \<open>sub\<close> occurs as a contiguous slice of \<open>s\<close>.\<close>

fun str_contains :: "ustring \<Rightarrow> ustring \<Rightarrow> bool" where
  "str_contains sub [] = (sub = [])"
| "str_contains sub (c # cs) = (prefix sub (c # cs) \<or> str_contains sub cs)"

definition endswith :: "ustring \<Rightarrow> ustring \<Rightarrow> bool" where
  "endswith s suf = suffix suf s"

definition strip :: "ustring \<Rightarrow> ustring" where
  "strip s = rev (dropWhile isspace (rev (dropWhile isspace s)))"

text \<open>
  \<open>s.replace(old, new)\<close>: every non-overlapping occurrence of \<open>old\<close>, found from the
  left, is replaced. With an empty \<open>old\<close> Python puts \<open>new\<close> before every character and
  at the end.
\<close>

function replace_nonempty :: "ustring \<Rightarrow> ustring \<Rightarrow> ustring \<Rightarrow> ustring" where
  "replace_nonempty old new s =
     (if old = [] \<or> s = [] then s
      else if prefix old s then new @ replace_nonempty old new (drop (length old) s)
      else hd s # replace_nonempty old new (tl s))"
  by pat_completeness auto
termination
  by (relation "measure (\<lambda>(old, new, s). length s)") auto

definition str_replace :: "ustring \<Rightarrow> ustring \<Rightarrow> ustring \<Rightarrow> ustring" where
  "str_replace s old new =
     (if old = [] then new @ concat (map (\<lambda>c. c # new) s) else replace_nonempty old new s)"

section \<open>The literals of the source\<close>

text \<open>The five code points of the template name searched for in the wikitext.\<close>

definition template_name :: ustring where
  "template_name = [31105, 38381, 32773, 22270, 37492]"

text \<open>The field read from the template (three code points).\<close>

definition english_name_field :: ustring where
  "english_name_field = [33521, 25991, 21517]"

text \<open>The namespace prefix of a character page: three code points and an ASCII colon.\<close>

definition namespace_prefix :: ustring where
  "namespace_prefix = [31105, 38381, 32773, 58]"

text \<open>The first excluded substring of the download filter (four code points).\<close>

definition excluded_costume :: ustring where
  "excluded_costume = [21319, 38454, 35013, 26463]"

definition lbraces :: ustring where
  "lbraces = ustr ''{{''"

definition rbraces :: ustring where
  "rbraces = ustr ''}}''"

section \<open>Backtracking search, as \<open>re.search\<close> performs it\<close>

text \<open>
  A greedy quantifier first takes as many characters as it can and gives them back one
  at a time while the rest of the pattern fails: \<open>try_down n f\<close> tries the counts
  \<open>n, n - 1, ..., 0\<close> in this order and returns the first success.
\<close>

fun try_down :: "nat \<Rightarrow> (nat \<Rightarrow> 'a option) \<Rightarrow> 'a option" where
  "try_down 0 f = f 0"
| "try_down (Suc n) f = (case f (Suc n) of Some r \<Rightarrow> Some r | None \<Rightarrow> try_down n f)"

text \<open>The number of characters \<open>\s*\<close> can take at the head of a string.\<close>

definition ws_count :: "ustring \<Rightarrow> nat" where
  "ws_count s = length (takeWhile isspace s)"

text \<open>
  \<open>re.search\<close> tries the pattern at every start position from the left (the end of the
  string included) and returns the first position where it matches.
\<close>

fun re_search :: "(ustring \<Rightarrow> 'a option) \<Rightarrow> ustring \<Rightarrow> nat \<Rightarrow> (nat \<times> 'a) option" where
  "re_search m [] i = (case m [] of Some r \<Rightarrow> Some (i, r) | None \<Rightarrow> None)"
| "re_search m (c # cs) i =
     (case m (c # cs) of Some r \<Rightarrow> Some (i, r) | None \<Rightarrow> re_search m cs (Suc i))"

section \<open>Template extraction\<close>

text \<open>
  Lines 41 to 82 of \<open>get_template_field\<close> find the template and cut it out of the
  wikitext; they are \<open>extract_template\<close> below.

  The pattern \<open>{{\s*NAME\<close> anchored at the head of \<open>s\<close>. The source searches for the
  fixed name \<open>template_name\<close>; the name is a parameter here.
\<close>

definition template_start_at :: "ustring \<Rightarrow> ustring \<Rightarrow> unit option" where
  "template_start_at tname s =
     (if take 2 s = lbraces
      then try_down (ws_count (drop 2 s))
             (\<lambda>k. if prefix tname (drop k (drop 2 s)) then Some () else None)
      else None)"

record scan_state =
  current_index :: nat
  brace_balance :: int
  template_text :: ustring
  in_comment :: bool

datatype step = Continue scan_state | Break scan_state

text \<open>
  One iteration of the \<open>while\<close> loop, entered with \<open>current_index < len(wikitext)\<close>.
  The first test of the source compares a four-character slice with the empty string.
\<close>

definition scan_step :: "ustring \<Rightarrow> scan_state \<Rightarrow> step" where
  "scan_step wikitext st =
     (let i = current_index st in
      if take 4 (drop i wikitext) = []
      then Continue (st\<lparr>in_comment := False, current_index := i + 3\<rparr>)
      else if \<not> in_comment st \<and> take 2 (drop i wikitext) = lbraces
      then Continue (st\<lparr>brace_balance := brace_balance st + 1,
                        template_text := template_text st @ lbraces,
                        current_index := i + 2\<rparr>)
      else if \<not> in_comment st \<and> take 2 (drop i wikitext) = rbraces
      then (let st' = st\<lparr>brace_balance := brace_balance st - 1,
                          template_text := template_text st @ rbraces,
                          current_index := i + 2\<rparr>
            in if brace_balance st' = 0 then Break st' else Continue st')
      else Continue (st\<lparr>template_text := template_text st @ [wikitext ! i],
                        current_index := i + 1\<rparr>))"

text \<open>
  The loop with its \<open>else\<close> clause: \<open>None\<close> when the condition fails before any
  \<open>break\<close>, the state at the \<open>break\<close> otherwise.
\<close>

function scan_loop :: "ustring \<Rightarrow> scan_state \<Rightarrow> scan_state option" where
  "scan_loop wikitext st =
     (if current_index st < length wikitext
      then (case scan_step wikitext st of
              Break st' \<Rightarrow> Some st'
            | Continue st' \<Rightarrow> scan_loop wikitext st')
      else None)"
  by pat_completeness auto
termination
  by (relation "measure (\<lambda>(w, st). length w - current_index st)")
     (auto simp: scan_step_def Let_def split: if_splits)

text \<open>
  The states at the head of every iteration, followed by the state in which the loop is
  left: the same recursion as \<open>scan_loop\<close>, recording what it visits.
\<close>

function scan_trace :: "ustring \<Rightarrow> scan_state \<Rightarrow> scan_state list" where
  "scan_trace wikitext st =
     (if current_index st < length wikitext
      then (case scan_step wikitext st of
              Break st' \<Rightarrow> [st, st']
            | Continue st' \<Rightarrow> st # scan_trace wikitext st')
      else [st])"
  by pat_completeness auto
termination
  by (relation "measure (\<lambda>(w, st). length w - current_index st)")
     (auto simp: scan_step_def Let_def split: if_splits)

datatype failure =
  BadJson | ApiReportedError | NoWikitext | NoTemplateStart | Unbalanced | FieldNotFound

definition initial_state :: "nat \<Rightarrow> scan_state" where
  "initial_state start_index =
     \<lparr>current_index = start_index, brace_balance = 0, template_text = [], in_comment = False\<rparr>"

definition extract_template :: "ustring \<Rightarrow> ustring \<Rightarrow> failure + ustring" where
  "extract_template wikitext tname =
     (case re_search (template_start_at tname) wikitext 0 of
        None \<Rightarrow> Inl NoTemplateStart
      | Some (start_index, _) \<Rightarrow>
          (case scan_loop wikitext (initial_state start_index) of
             None \<Rightarrow> Inl Unbalanced
           | Some st \<Rightarrow> Inr (template_text st)))"

section \<open>Field extraction\<close>

text \<open>
  Lines 96 to 103 of \<open>get_template_field\<close> read the field from the template text; they
  are \<open>extract_field\<close> below.

  The class \<open>[^|\n\r}]\<close> of the value group.
\<close>

definition value_char :: "nat \<Rightarrow> bool" where
  "value_char c \<longleftrightarrow> c \<noteq> 124 \<and> c \<noteq> 10 \<and> c \<noteq> 13 \<and> c \<noteq> 125"

text \<open>The alternation \<open>(?:\||\{\{)\<close>: what follows the delimiter, when there is one.\<close>

definition delimiter_at :: "ustring \<Rightarrow> ustring option" where
  "delimiter_at s =
     (if take 1 s = ustr ''|'' then Some (drop 1 s)
      else if take 2 s = lbraces then Some (drop 2 s)
      else None)"

text \<open>
  The pattern \<open>(?:\||\{\{)\s*NAME\s*=\s*([^|\n\r}]+)\<close> anchored at the head of a
  string, read from its end: each function is what remains of the pattern to match, the
  three greedy \<open>\s*\<close> backtracking in the order of the engine; the result is group 1.
\<close>

text \<open>\<open>\s*([^|\n\r}]+)\<close>: the value group after the \<open>=\<close>.\<close>

definition value_group :: "ustring \<Rightarrow> ustring option" where
  "value_group r =
     try_down (ws_count r) (\<lambda>k.
       (let g = takeWhile value_char (drop k r) in if g = [] then None else Some g))"

text \<open>\<open>\s*=\s*([^|\n\r}]+)\<close>: what follows the field name.\<close>

definition after_name :: "ustring \<Rightarrow> ustring option" where
  "after_name r =
     try_down (ws_count r) (\<lambda>k.
       if take 1 (drop k r) = ustr ''='' then value_group (drop 1 (drop k r)) else None)"

text \<open>\<open>\s*NAME\s*=\s*([^|\n\r}]+)\<close>: what follows the delimiter.\<close>

definition after_delimiter :: "ustring \<Rightarrow> ustring \<Rightarrow> ustring option" where
  "after_delimiter field_name r =
     try_down (ws_count r) (\<lambda>k.
       if prefix field_name (drop k r)
       then after_name (drop (length field_name) (drop k r))
       else None)"

definition field_at :: "ustring \<Rightarrow> ustring \<Rightarrow> ustring option" where
  "field_at field_name s =
     (case delimiter_at s of
        None \<Rightarrow> None
      | Some r \<Rightarrow> after_delimiter field_name r)"

definition extract_field :: "ustring \<Rightarrow> ustring \<Rightarrow> ustring option" where
  "extract_field text field_name =
     (case re_search (field_at field_name) text 0 of
        None \<Rightarrow> None
      | Some (_, g) \<Rightarrow> Some (strip g))"

section \<open>The page lookup\<close>

text \<open>
  What the request for a page's wikitext gives: a body that is not JSON, a JSON body with
  an \<open>error\<close> key, or a JSON body whose wikitext (the empty string when a key is
  missing) is carried by \<open>Data\<close>. The site is a function from page titles to responses.
\<close>

datatype api_response = JsonDecodeError | ErrorData | Data ustring

definition get_template_field ::
  "(ustring \<Rightarrow> api_response) \<Rightarrow> ustring \<Rightarrow> ustring \<Rightarrow> failure + ustring" where
  "get_template_field site page_title field_name =
     (case site page_title of
        JsonDecodeError \<Rightarrow> Inl BadJson
      | ErrorData \<Rightarrow> Inl ApiReportedError
      | Data wikitext \<Rightarrow>
          if wikitext = [] then Inl NoWikitext
          else (case extract_template wikitext template_name of
                  Inl e \<Rightarrow> Inl e
                | Inr text \<Rightarrow>
                    (case extract_field text field_name of
                       None \<Rightarrow> Inl FieldNotFound
                     | Some v \<Rightarrow> Inr v)))"

section \<open>Filename sanitization\<close>

text \<open>The class \<open>[\s\\/:"*?<>|]\<close>: whitespace and the nine reserved characters.\<close>

definition reserved :: "nat \<Rightarrow> bool" where
  "reserved c \<longleftrightarrow> isspace c \<or> c \<in> {92, 47, 58, 34, 42, 63, 60, 62, 124}"

text \<open>\<open>re.sub\<close> of the pattern \<open>[...]+\<close> by an underscore: one underscore per maximal run.\<close>

function sub_runs :: "ustring \<Rightarrow> ustring" where
  "sub_runs [] = []"
| "sub_runs (c # cs) =
     (if reserved c then 95 # sub_runs (dropWhile reserved cs) else c # sub_runs cs)"
  by pat_completeness auto
termination
  by (relation "measure length") (auto simp: length_dropWhile_le less_Suc_eq_le)

text \<open>
  The three steps applied to a found name (lines 163 to 170). \<open>str.lower\<close> follows the Unicode case tables
  of the interpreter, which are no part of the program: it is the parameter \<open>lower\<close>.
\<close>

definition sanitize :: "(ustring \<Rightarrow> ustring) \<Rightarrow> ustring \<Rightarrow> ustring" where
  "sanitize lower english_name =
     sub_runs (str_replace (lower english_name) (ustr ''.'') [])"

text \<open>\<open>str.lower\<close> on strings of ASCII characters, for evaluating concrete inputs.\<close>

definition ascii_lower :: "ustring \<Rightarrow> ustring" where
  "ascii_lower s = map (\<lambda>c. if 65 \<le> c \<and> c \<le> 90 then c + 32 else c) s"

section \<open>Listing, filtering and naming the images\<close>

record image =
  name :: ustring
  url :: ustring

text \<open>
  The test applied to every record of every result page of the listing (line 123);
  \<open>allimages\<close> is the concatenation of the pages.
\<close>

definition search_all_images :: "image list \<Rightarrow> ustring \<Rightarrow> image list" where
  "search_all_images allimages keyword =
     filter (\<lambda>image. str_contains keyword (name image) \<and> endswith (name image) (ustr ''.png''))
       allimages"

text \<open>
  The list comprehension of the download function (line 139); its second literal is
  the empty string.
\<close>

definition filtered_images :: "image list \<Rightarrow> image list" where
  "filtered_images images =
     filter (\<lambda>img. \<not> str_contains excluded_costume (name img) \<and> \<not> str_contains [] (name img))
       images"

text \<open>The two filters in the order \<open>main\<close> applies them.\<close>

definition filter_assets :: "image list \<Rightarrow> ustring \<Rightarrow> image list" where
  "filter_assets allimages keyword = filtered_images (search_all_images allimages keyword)"

text \<open>Lines 147 and 150: the page whose template names the character.\<close>

definition character_page_title :: "ustring \<Rightarrow> ustring \<Rightarrow> ustring" where
  "character_page_title original_name keyword =
     namespace_prefix @ str_replace original_name (keyword @ ustr ''.png'') []"

text \<open>\<open>not english_name\<close>: true of \<open>None\<close> and of the empty string.\<close>

definition falsy :: "failure + ustring \<Rightarrow> bool" where
  "falsy r = (case r of Inl _ \<Rightarrow> True | Inr v \<Rightarrow> v = [])"

text \<open>
  The body of the loop over the filtered images, up to the choice of the file name
  (lines 144 to 173).
\<close>

definition resolve_name ::
  "(ustring \<Rightarrow> ustring) \<Rightarrow> (ustring \<Rightarrow> api_response) \<Rightarrow> image \<Rightarrow> ustring \<Rightarrow> ustring" where
  "resolve_name lower site img keyword =
     (let original_name = name img;
          english_name =
            get_template_field site (character_page_title original_name keyword)
              english_name_field
      in if falsy english_name then original_name
         else (case english_name of
                 Inr v \<Rightarrow> sanitize lower v @ ustr ''.png''
               | Inl _ \<Rightarrow> original_name))"

definition download_images_with_english_names ::
  "(ustring \<Rightarrow> ustring) \<Rightarrow> (ustring \<Rightarrow> api_response) \<Rightarrow> image list \<Rightarrow> ustring
     \<Rightarrow> (image \<times> ustring) list" where
  "download_images_with_english_names lower site images keyword =
     map (\<lambda>img. (img, resolve_name lower site img keyword)) (filtered_images images)"

section \<open>The properties, as the specification words them\<close>

text \<open>
  The asset filter of the specification: an asset is kept when its name contains the
  keyword, ends with \<open>.png\<close> and contains none of the exclusion substrings.
\<close>

definition filter_assets_spec :: "image list \<Rightarrow> ustring \<Rightarrow> ustring list \<Rightarrow> image list" where
  "filter_assets_spec assets keyword exclusions =
     filter (\<lambda>a. str_contains keyword (name a) \<and> endswith (name a) (ustr ''.png'') \<and>
                 list_all (\<lambda>e. \<not> str_contains e (name a)) exclusions) assets"

text \<open>The keyword of the examples (three code points).\<close>

definition id_photo :: ustring where
  "id_photo = [35777, 20214, 29031]"

text \<open>Removing a literal suffix from the end of a string, and nothing else.\<close>

definition strip_suffix :: "ustring \<Rightarrow> ustring \<Rightarrow> ustring" where
  "strip_suffix suf s = (if suffix suf s then take (length s - length suf) s else s)"

text \<open>
  A body in which braces occur only as properly nested pairs \<open>{{\<close> ... \<open>}}\<close>, and a
  well-formed template instance: such a body between its outer delimiters.
\<close>

inductive balanced_body :: "ustring \<Rightarrow> bool" where
  empty: "balanced_body []"
| plain: "balanced_body r \<Longrightarrow> c \<noteq> 123 \<Longrightarrow> c \<noteq> 125 \<Longrightarrow> balanced_body (c # r)"
| nested: "balanced_body a \<Longrightarrow> balanced_body b \<Longrightarrow> balanced_body (lbraces @ a @ rbraces @ b)"

definition well_formed_instance :: "ustring \<Rightarrow> bool" where
  "well_formed_instance t \<longleftrightarrow> (\<exists>b. t = lbraces @ b @ rbraces \<and> balanced_body b)"

text \<open>
  An assignment of the field at position \<open>i\<close> of the text with raw value \<open>raw\<close>: a
  delimiter, whitespace, the field name, whitespace, \<open>=\<close>, whitespace, and a value of at
  least one character that runs up to the first of \<open>|\<close>, newline, carriage return and
  \<open>}\<close>, or to the end of the text.
\<close>

definition is_assignment :: "ustring \<Rightarrow> ustring \<Rightarrow> nat \<Rightarrow> ustring \<Rightarrow> bool" where
  "is_assignment text field_name i raw \<longleftrightarrow>
     i \<le> length text \<and>
     (\<exists>d ws1 ws2 ws3 rest.
        drop i text = d @ ws1 @ field_name @ ws2 @ ustr ''='' @ ws3 @ raw @ rest \<and>
        (d = ustr ''|'' \<or> d = lbraces) \<and>
        list_all isspace ws1 \<and> list_all isspace ws2 \<and> list_all isspace ws3 \<and>
        raw \<noteq> [] \<and> list_all value_char raw \<and>
        (rest = [] \<or> \<not> value_char (hd rest)))"

text \<open>
  Three sites for the examples: one whose pages all hold the template with the name
  \<open>John Doe\<close>, one whose pages hold the template with a blank name, and one that answers
  every request with an error.
\<close>

definition john_doe_site :: "ustring \<Rightarrow> api_response" where
  "john_doe_site page_title =
     Data (lbraces @ template_name @ ustr ''|'' @ english_name_field @ ustr ''=John Doe}}'')"

definition blank_name_site :: "ustring \<Rightarrow> api_response" where
  "blank_name_site page_title =
     Data (lbraces @ template_name @ ustr ''|'' @ english_name_field @ ustr ''= |x=1}}'')"

definition error_site :: "ustring \<Rightarrow> api_response" where
  "error_site page_title = ErrorData"

definition id_photo_image :: image where
  "id_photo_image = \<lparr>name = ustr ''A_'' @ id_photo @ ustr ''.png'', url = []\<rparr>"

section \<open>Facts about the string operations\<close>

declare replace_nonempty.simps [simp del] scan_loop.simps [simp del] scan_trace.simps [simp del]

lemmas literal_defs = ustr_def lbraces_def rbraces_def template_name_def english_name_field_def
  namespace_prefix_def excluded_costume_def id_photo_def

lemma str_contains_empty: "str_contains [] s"
  by (cases s) simp_all

lemma str_contains_drop: "i \<le> length s \<Longrightarrow> prefix sub (drop i s) \<Longrightarrow> str_contains sub s"
proof (induction s arbitrary: i)
  case Nil
  then show ?case by simp
next
  case (Cons c cs)
  show ?case
  proof (cases i)
    case 0
    with Cons.prems show ?thesis by simp
  next
    case (Suc j)
    with Cons.prems have "j \<le> length cs" "prefix sub (drop j cs)" by simp_all
    then have "str_contains sub cs" by (rule Cons.IH)
    then show ?thesis by simp
  qed
qed

lemma filtered_images_empty: "filtered_images images = []"
  by (simp add: filtered_images_def str_contains_empty)

lemma replace_dot: "replace_nonempty [46] [] s = filter (\<lambda>c. c \<noteq> 46) s"
proof (induction s)
  case Nil
  show ?case by (subst replace_nonempty.simps) simp
next
  case (Cons a s)
  show ?case by (subst replace_nonempty.simps) (simp add: Cons)
qed

lemma sub_runs_empty_iff: "sub_runs s = [] \<longleftrightarrow> s = []"
  by (cases s) simp_all

lemma sanitize_filter: "sanitize lower s = sub_runs (filter (\<lambda>c. c \<noteq> 46) (lower s))"
  by (simp add: sanitize_def str_replace_def ustr_def replace_dot)

lemma strip_suffix_Cons:
  assumes "pat \<noteq> c # cs"
  shows "strip_suffix pat (c # cs) = c # strip_suffix pat cs"
proof (cases "suffix pat (c # cs)")
  case True
  with assms have s: "suffix pat cs" by (auto simp: suffix_Cons)
  then have "length pat \<le> length cs" by (rule suffix_length_le)
  with True s show ?thesis by (simp add: strip_suffix_def Suc_diff_le)
next
  case False
  then have "\<not> suffix pat cs" by (auto simp: suffix_Cons)
  with False show ?thesis by (simp add: strip_suffix_def)
qed

lemma replace_only_suffix:
  assumes "pat \<noteq> []"
    and "\<forall>i\<le>length s. prefix pat (drop i s) \<longrightarrow> i + length pat = length s"
  shows "replace_nonempty pat [] s = strip_suffix pat s"
  using assms(2)
proof (induction s)
  case Nil
  show ?case using assms(1) by (subst replace_nonempty.simps) (simp add: strip_suffix_def)
next
  case (Cons c cs)
  show ?case
  proof (cases "prefix pat (c # cs)")
    case True
    with Cons.prems[rule_format, of 0] have len: "length pat = length (c # cs)" by simp
    from True obtain zs where zs: "c # cs = pat @ zs" by (auto simp: prefix_def)
    then have "length (c # cs) = length pat + length zs" by (metis length_append)
    with len have "zs = []" by simp
    with zs have eq: "pat = c # cs" by simp
    have "replace_nonempty pat [] (c # cs) = replace_nonempty pat [] []"
      using eq by (subst replace_nonempty.simps) simp
    also have "\<dots> = []" by (subst replace_nonempty.simps) simp
    finally show ?thesis using eq by (simp add: strip_suffix_def)
  next
    case False
    then have ne: "pat \<noteq> c # cs" by auto
    have "\<forall>i\<le>length cs. prefix pat (drop i cs) \<longrightarrow> i + length pat = length cs"
    proof (intro allI impI)
      fix i assume "i \<le> length cs" "prefix pat (drop i cs)"
      with Cons.prems[rule_format, of "Suc i"] show "i + length pat = length cs" by simp
    qed
    then have ih: "replace_nonempty pat [] cs = strip_suffix pat cs" by (rule Cons.IH)
    have "replace_nonempty pat [] (c # cs) = c # replace_nonempty pat [] cs"
      using False assms(1) by (subst replace_nonempty.simps) simp
    then show ?thesis using ih ne by (simp add: strip_suffix_Cons)
  qed
qed

lemma occurrence_before_end:
  assumes "i \<le> length s" "prefix pat (drop i s)" "i + length pat \<noteq> length s"
  shows "str_contains pat (butlast s)"
proof -
  from assms(2) obtain zs where zs: "drop i s = pat @ zs" by (auto simp: prefix_def)
  then have "length s - i = length pat + length zs" by (metis length_append length_drop)
  with assms(1,3) have "zs \<noteq> []" by auto
  have "drop i (butlast s) = butlast (drop i s)" by (simp add: butlast_drop)
  also have "\<dots> = pat @ butlast zs" using zs \<open>zs \<noteq> []\<close> by (simp add: butlast_append)
  finally have "prefix pat (drop i (butlast s))" by simp
  moreover have "i \<le> length (butlast s)"
    using assms(1) zs \<open>zs \<noteq> []\<close> by (cases "i = length s") auto
  ultimately show ?thesis by (rule str_contains_drop[rotated])
qed

subsection \<open>The scanning loop\<close>

lemma slice2_in_range: "take 2 (drop i w) = [a, b] \<Longrightarrow> i + 2 \<le> length w"
proof -
  assume "take 2 (drop i w) = [a, b]"
  then have "length (take 2 (drop i w)) = 2" by simp
  then show ?thesis by (simp add: min_def split: if_splits)
qed

lemma slice1_nth: "i < length w \<Longrightarrow> take (Suc 0) (drop i w) = [w ! i]"
  by (simp add: take_Suc_conv_app_nth)

lemma take_take_drop:
  "i \<le> j \<Longrightarrow> j \<le> k \<Longrightarrow>
   take (j - i) (drop i w) @ take (k - j) (drop j w) = take (k - i) (drop i w)"
proof -
  assume a: "i \<le> j" "j \<le> k"
  then have "k - i = (j - i) + (k - j)" by simp
  then have "take (k - i) (drop i w) = take (j - i) (drop i w) @ take (k - j) (drop (j - i) (drop i w))"
    by (simp only: take_add)
  with a show ?thesis by simp
qed

lemma step_Continue:
  assumes "current_index st < length w" "\<not> in_comment st" "scan_step w st = Continue st'"
  shows "\<not> in_comment st'" "current_index st < current_index st'"
    "current_index st' \<le> length w"
    "template_text st' = template_text st @
       take (current_index st' - current_index st) (drop (current_index st) w)"
    "1 \<le> brace_balance st \<Longrightarrow> 1 \<le> brace_balance st'"
  using assms slice2_in_range[of "current_index st" w]
  by (auto simp: scan_step_def Let_def lbraces_def rbraces_def ustr_def slice1_nth
      split: if_splits)

lemma step_Break:
  assumes "current_index st < length w" "\<not> in_comment st" "scan_step w st = Break st'"
  shows "\<not> in_comment st'" "current_index st < current_index st'"
    "current_index st' \<le> length w"
    "template_text st' = template_text st @
       take (current_index st' - current_index st) (drop (current_index st) w)"
    "brace_balance st' = 0"
  using assms slice2_in_range[of "current_index st" w]
  by (auto simp: scan_step_def Let_def lbraces_def rbraces_def ustr_def slice1_nth
      split: if_splits)


lemma scan_run:
  assumes "\<not> in_comment st" "1 \<le> brace_balance st"
  shows "(\<forall>s\<in>set (butlast (scan_trace w st)). 1 \<le> brace_balance s) \<and>
     scan_trace w st \<noteq> [] \<and> hd (scan_trace w st) = st \<and>
     (case scan_loop w st of
        None \<Rightarrow> length w \<le> current_index (last (scan_trace w st)) \<and>
                 1 \<le> brace_balance (last (scan_trace w st))
      | Some st' \<Rightarrow> last (scan_trace w st) = st' \<and> brace_balance st' = 0 \<and>
          current_index st \<le> current_index st' \<and> current_index st' \<le> length w \<and>
          template_text st' = template_text st @
            take (current_index st' - current_index st) (drop (current_index st) w))"
  using assms
proof (induction w st rule: scan_loop.induct)
  case (1 w st)
  show ?case
  proof (cases "current_index st < length w")
    case False
    then have "scan_trace w st = [st]" "scan_loop w st = None"
      by (simp_all add: scan_trace.simps scan_loop.simps)
    with False "1.prems" show ?thesis by simp
  next
    case True
    show ?thesis
    proof (cases "scan_step w st")
      case (Break st')
      with True have tr: "scan_trace w st = [st, st']" and lp: "scan_loop w st = Some st'"
        by (simp_all add: scan_trace.simps scan_loop.simps)
      from step_Break[OF True "1.prems"(1) Break] "1.prems"(2) tr lp show ?thesis
        by simp
    next
      case (Continue st')
      with True have tr: "scan_trace w st = st # scan_trace w st'"
        and lp: "scan_loop w st = scan_loop w st'"
        by (simp_all add: scan_trace.simps scan_loop.simps)
      note st = step_Continue[OF True "1.prems"(1) Continue]
      from st(5) "1.prems"(2) have b: "1 \<le> brace_balance st'" by simp
      note ih = "1.IH"[OF True Continue st(1) b]
      from ih have ne: "scan_trace w st' \<noteq> []" by simp
      have p1: "\<forall>s\<in>set (butlast (scan_trace w st)). 1 \<le> brace_balance s"
        using ih ne "1.prems"(2) by (simp add: tr)
      have p2: "scan_trace w st \<noteq> [] \<and> hd (scan_trace w st) = st" by (simp add: tr)
      have l: "last (scan_trace w st) = last (scan_trace w st')" using ne by (simp add: tr)
      show ?thesis
      proof (cases "scan_loop w st'")
        case None
        with ih p1 p2 l lp show ?thesis by simp
      next
        case (Some st'')
        with ih have f: "last (scan_trace w st') = st''" "brace_balance st'' = 0"
          "current_index st' \<le> current_index st''" "current_index st'' \<le> length w"
          "template_text st'' = template_text st' @
             take (current_index st'' - current_index st') (drop (current_index st') w)"
          by simp_all
        have "template_text st'' = template_text st @
             take (current_index st'' - current_index st) (drop (current_index st) w)"
          using f(5) st(4) take_take_drop[of "current_index st" "current_index st'" "current_index st''" w]
            st(2) f(3) by simp
        with f st(2) p1 p2 l lp Some show ?thesis by simp
      qed
    qed
  qed
qed

subsection \<open>The search over start positions\<close>

lemma re_search_Some:
  "re_search m s k = Some (i, r) \<Longrightarrow>
     k \<le> i \<and> i - k \<le> length s \<and> m (drop (i - k) s) = Some r \<and>
     (\<forall>j<i - k. m (drop j s) = None)"
proof (induction s arbitrary: k)
  case Nil
  then show ?case by (auto split: option.splits)
next
  case (Cons c cs)
  show ?case
  proof (cases "m (c # cs)")
    case (Some r')
    with Cons.prems show ?thesis by simp
  next
    case None
    with Cons.prems have "re_search m cs (Suc k) = Some (i, r)" by simp
    from Cons.IH[OF this] have ih: "Suc k \<le> i" "i - Suc k \<le> length cs"
      "m (drop (i - Suc k) cs) = Some r" "\<forall>j<i - Suc k. m (drop j cs) = None" by simp_all
    from ih(1) have eq: "i - k = Suc (i - Suc k)" by simp
    have "\<forall>j<i - k. m (drop j (c # cs)) = None"
    proof (intro allI impI)
      fix j assume "j < i - k"
      then show "m (drop j (c # cs)) = None"
        using None ih(4) eq by (cases j) simp_all
    qed
    with ih eq show ?thesis by simp
  qed
qed

lemma re_search_None:
  "re_search m s k = None \<Longrightarrow> j \<le> length s \<Longrightarrow> m (drop j s) = None"
proof (induction s arbitrary: k j)
  case Nil
  then show ?case by (auto split: option.splits)
next
  case (Cons c cs)
  from Cons.prems(1) have n: "m (c # cs) = None" and r: "re_search m cs (Suc k) = None"
    by (auto split: option.splits)
  show ?case
  proof (cases j)
    case 0
    with n show ?thesis by simp
  next
    case (Suc j')
    with Cons.prems(2) have "j' \<le> length cs" by simp
    from Cons.IH[OF r this] Suc show ?thesis by simp
  qed
qed

subsection \<open>The scan from the opening marker\<close>

lemma template_start_at_braces:
  "template_start_at tname s = Some u \<Longrightarrow> take 2 s = lbraces"
  by (simp add: template_start_at_def split: if_splits)

lemma first_step:
  assumes "take 2 (drop start w) = lbraces"
  shows "start < length w"
    and "scan_step w (initial_state start) =
      Continue \<lparr>current_index = start + 2, brace_balance = 1, template_text = lbraces,
                in_comment = False\<rparr>"
proof -
  from assms show lt: "start < length w"
    by (cases "start < length w") (simp_all add: lbraces_def ustr_def)
  then show "scan_step w (initial_state start) =
      Continue \<lparr>current_index = start + 2, brace_balance = 1, template_text = lbraces,
                in_comment = False\<rparr>"
    using assms by (simp add: scan_step_def initial_state_def)
qed


lemma scan_from_start:
  assumes "take 2 (drop start w) = lbraces"
  shows "hd (scan_trace w (initial_state start)) = initial_state start"
    and "\<forall>s\<in>set (butlast (tl (scan_trace w (initial_state start)))). 1 \<le> brace_balance s"
    and "\<forall>s\<in>set (scan_trace w (initial_state start)). 0 \<le> brace_balance s"
    and "scan_loop w (initial_state start) = None \<Longrightarrow>
           length w \<le> current_index (last (scan_trace w (initial_state start))) \<and>
           1 \<le> brace_balance (last (scan_trace w (initial_state start)))"
    and "scan_loop w (initial_state start) = Some st' \<Longrightarrow>
           last (scan_trace w (initial_state start)) = st' \<and> brace_balance st' = 0 \<and>
           current_index st' = start + length (template_text st') \<and>
           template_text st' = take (length (template_text st')) (drop start w)"
proof -
  let ?st1 = "\<lparr>current_index = start + 2, brace_balance = 1, template_text = lbraces,
                in_comment = False\<rparr>"
  let ?tr1 = "scan_trace w ?st1"
  note fs = first_step[OF assms]
  have tr: "scan_trace w (initial_state start) = initial_state start # ?tr1"
    using fs by (subst scan_trace.simps) (simp add: initial_state_def)
  have lp: "scan_loop w (initial_state start) = scan_loop w ?st1"
    using fs by (subst scan_loop.simps) (simp add: initial_state_def)
  have run: "(\<forall>s\<in>set (butlast ?tr1). 1 \<le> brace_balance s) \<and> ?tr1 \<noteq> [] \<and> hd ?tr1 = ?st1 \<and>
     (case scan_loop w ?st1 of
        None \<Rightarrow> length w \<le> current_index (last ?tr1) \<and> 1 \<le> brace_balance (last ?tr1)
      | Some st' \<Rightarrow> last ?tr1 = st' \<and> brace_balance st' = 0 \<and>
          current_index ?st1 \<le> current_index st' \<and> current_index st' \<le> length w \<and>
          template_text st' = template_text ?st1 @
            take (current_index st' - current_index ?st1) (drop (current_index ?st1) w))"
    by (rule scan_run) simp_all
  then have ne: "?tr1 \<noteq> []" by simp
  show "hd (scan_trace w (initial_state start)) = initial_state start" by (simp add: tr)
  show inner: "\<forall>s\<in>set (butlast (tl (scan_trace w (initial_state start)))). 1 \<le> brace_balance s"
    using run by (simp add: tr)
  have lst: "last (scan_trace w (initial_state start)) = last ?tr1" using ne by (simp add: tr)
  have last0: "0 \<le> brace_balance (last ?tr1)"
    using run by (cases "scan_loop w ?st1") simp_all
  have "set ?tr1 = set (butlast ?tr1) \<union> {last ?tr1}"
    using ne by (metis append_butlast_last_id list.simps(15) set_append empty_set)
  then have "\<forall>s\<in>set ?tr1. 0 \<le> brace_balance s" using run last0 by fastforce
  then show "\<forall>s\<in>set (scan_trace w (initial_state start)). 0 \<le> brace_balance s"
    unfolding tr by (simp add: initial_state_def)
  show "scan_loop w (initial_state start) = None \<Longrightarrow>
           length w \<le> current_index (last (scan_trace w (initial_state start))) \<and>
           1 \<le> brace_balance (last (scan_trace w (initial_state start)))"
    using run lp lst by simp
  show "scan_loop w (initial_state start) = Some st' \<Longrightarrow>
           last (scan_trace w (initial_state start)) = st' \<and> brace_balance st' = 0 \<and>
           current_index st' = start + length (template_text st') \<and>
           template_text st' = take (length (template_text st')) (drop start w)"
  proof -
    assume "scan_loop w (initial_state start) = Some st'"
    with lp have s: "scan_loop w ?st1 = Some st'" by simp
    with run have f: "last ?tr1 = st'" "brace_balance st' = 0"
      "start + 2 \<le> current_index st'" "current_index st' \<le> length w"
      "template_text st' = lbraces @ take (current_index st' - (start + 2)) (drop (start + 2) w)"
      by simp_all
    have "template_text st' = take (start + 2 - start) (drop start w) @
        take (current_index st' - (start + 2)) (drop (start + 2) w)"
      using f(5) assms by simp
    also have "\<dots> = take (current_index st' - start) (drop start w)"
      using f(3) by (intro take_take_drop) simp_all
    finally have t: "template_text st' = take (current_index st' - start) (drop start w)" .
    then have "length (template_text st') = current_index st' - start"
      using f(3,4) by simp
    with t f lst show ?thesis by simp
  qed
qed

lemma extract_template_Inr:
  assumes "extract_template w tname = Inr t"
  shows "\<exists>start st'. re_search (template_start_at tname) w 0 = Some (start, ()) \<and>
           take 2 (drop start w) = lbraces \<and>
           scan_loop w (initial_state start) = Some st' \<and> template_text st' = t"
proof -
  from assms obtain start u st' where
    r: "re_search (template_start_at tname) w 0 = Some (start, u)"
    and l: "scan_loop w (initial_state start) = Some st'" and t: "template_text st' = t"
    by (auto simp: extract_template_def split: option.splits prod.splits)
  from re_search_Some[OF r] have "template_start_at tname (drop start w) = Some u" by simp
  then have "take 2 (drop start w) = lbraces" by (rule template_start_at_braces)
  with r l t show ?thesis by auto
qed

lemma extract_template_Unbalanced:
  "extract_template w tname = Inl Unbalanced \<longleftrightarrow>
     (\<exists>start. re_search (template_start_at tname) w 0 = Some (start, ()) \<and>
        scan_loop w (initial_state start) = None)"
  by (auto simp: extract_template_def split: option.splits prod.splits)

lemmas scan_eval = literal_defs extract_template_def template_start_at_def ws_count_def
  isspace_def initial_state_def scan_step_def Let_def scan_loop.simps

subsection \<open>Scanning a balanced body\<close>

lemma drop_after:
  "drop i w = xs @ ys \<Longrightarrow> drop (i + length xs) w = ys"
proof -
  assume a: "drop i w = xs @ ys"
  have "drop (i + length xs) w = drop (length xs) (drop i w)" by (simp add: add.commute)
  with a show ?thesis by simp
qed

lemma scan_plain:
  assumes "drop (current_index st) w = c # r" "c \<noteq> 123" "c \<noteq> 125"
  shows "scan_loop w st =
         scan_loop w (st\<lparr>template_text := template_text st @ [c],
                         current_index := current_index st + 1\<rparr>)"
proof -
  from assms(1) have lt: "current_index st < length w"
    by (cases "current_index st < length w") simp_all
  then have "w ! current_index st = c"
    using assms(1) by (metis hd_drop_conv_nth list.sel(1))
  then have "scan_step w st = Continue (st\<lparr>template_text := template_text st @ [c],
                         current_index := current_index st + 1\<rparr>)"
    using assms lt by (simp add: scan_step_def Let_def lbraces_def rbraces_def ustr_def)
  with lt show ?thesis by (subst scan_loop.simps) simp
qed

lemma scan_open:
  assumes "drop (current_index st) w = lbraces @ r" "\<not> in_comment st"
  shows "scan_loop w st =
         scan_loop w (st\<lparr>brace_balance := brace_balance st + 1,
                         template_text := template_text st @ lbraces,
                         current_index := current_index st + 2\<rparr>)"
proof -
  from assms(1) have lt: "current_index st < length w"
    by (cases "current_index st < length w") (simp_all add: lbraces_def ustr_def)
  have "scan_step w st = Continue (st\<lparr>brace_balance := brace_balance st + 1,
                         template_text := template_text st @ lbraces,
                         current_index := current_index st + 2\<rparr>)"
    using assms lt by (simp add: scan_step_def Let_def lbraces_def rbraces_def ustr_def)
  with lt show ?thesis by (subst scan_loop.simps) simp
qed

lemma scan_close:
  assumes "drop (current_index st) w = rbraces @ r" "\<not> in_comment st"
  shows "scan_step w st =
         (if brace_balance st - 1 = 0 then Break else Continue)
           (st\<lparr>brace_balance := brace_balance st - 1,
               template_text := template_text st @ rbraces,
               current_index := current_index st + 2\<rparr>)"
    and "current_index st < length w"
proof -
  from assms(1) show lt: "current_index st < length w"
    by (cases "current_index st < length w") (simp_all add: rbraces_def ustr_def)
  show "scan_step w st =
         (if brace_balance st - 1 = 0 then Break else Continue)
           (st\<lparr>brace_balance := brace_balance st - 1,
               template_text := template_text st @ rbraces,
               current_index := current_index st + 2\<rparr>)"
    using assms lt by (simp add: scan_step_def Let_def lbraces_def rbraces_def ustr_def)
qed

lemma scan_body:
  assumes "balanced_body b"
  shows "\<not> in_comment st \<Longrightarrow> 1 \<le> brace_balance st \<Longrightarrow>
         drop (current_index st) w = b @ rest \<Longrightarrow>
         scan_loop w st =
         scan_loop w (st\<lparr>template_text := template_text st @ b,
                         current_index := current_index st + length b\<rparr>)"
  using assms
proof (induction b arbitrary: st rest rule: balanced_body.induct)
  case empty
  then show ?case by simp
next
  case (plain r c)
  let ?st1 = "st\<lparr>template_text := template_text st @ [c],
                  current_index := current_index st + 1\<rparr>"
  from plain.prems(3) have d: "drop (current_index st) w = c # (r @ rest)" by simp
  have s1: "scan_loop w st = scan_loop w ?st1" using d plain.hyps(2,3) by (rule scan_plain)
  from drop_after[of "current_index st" w "[c]" "r @ rest"] d
  have "drop (current_index ?st1) w = r @ rest" by simp
  from plain.IH[OF _ _ this] plain.prems(1,2)
  have "scan_loop w ?st1 = scan_loop w (?st1\<lparr>template_text := template_text ?st1 @ r,
                         current_index := current_index ?st1 + length r\<rparr>)" by simp
  with s1 show ?case by simp
next
  case (nested a b)
  let ?st1 = "st\<lparr>brace_balance := brace_balance st + 1,
                  template_text := template_text st @ lbraces,
                  current_index := current_index st + 2\<rparr>"
  let ?st2 = "?st1\<lparr>template_text := template_text ?st1 @ a,
                    current_index := current_index ?st1 + length a\<rparr>"
  let ?st3 = "?st2\<lparr>brace_balance := brace_balance ?st2 - 1,
                    template_text := template_text ?st2 @ rbraces,
                    current_index := current_index ?st2 + 2\<rparr>"
  have l2: "length lbraces = 2" "length rbraces = 2" by (simp_all add: lbraces_def rbraces_def ustr_def)
  from nested.prems(3) have d: "drop (current_index st) w = lbraces @ (a @ rbraces @ b @ rest)"
    by simp
  have s1: "scan_loop w st = scan_loop w ?st1" using d nested.prems(1) by (rule scan_open)
  from drop_after[OF d] l2 have d1: "drop (current_index ?st1) w = a @ (rbraces @ b @ rest)"
    by simp
  from nested.IH(1)[OF _ _ d1] nested.prems(1,2)
  have s2: "scan_loop w ?st1 = scan_loop w ?st2" by simp
  from drop_after[OF d1] have d2: "drop (current_index ?st2) w = rbraces @ (b @ rest)"
    by simp
  have nc2: "\<not> in_comment ?st2" using nested.prems(1) by simp
  note c = scan_close[OF d2 nc2]
  have "scan_step w ?st2 = Continue ?st3" using c(1) nested.prems(2) by simp
  with c(2) have s3: "scan_loop w ?st2 = scan_loop w ?st3"
    by (subst scan_loop.simps) simp
  from drop_after[OF d2] l2 have d3: "drop (current_index ?st3) w = b @ rest" by simp
  from nested.IH(2)[OF _ _ d3] nested.prems(1,2)
  have s4: "scan_loop w ?st3 = scan_loop w (?st3\<lparr>template_text := template_text ?st3 @ b,
                         current_index := current_index ?st3 + length b\<rparr>)" by simp
  from s1 s2 s3 s4 l2 show ?case by (simp add: add.assoc)
qed

lemma scan_well_formed:
  assumes "drop start w = t @ post" "well_formed_instance t"
  shows "\<exists>st'. scan_loop w (initial_state start) = Some st' \<and> template_text st' = t"
proof -
  from assms(2) obtain b where t: "t = lbraces @ b @ rbraces" and bb: "balanced_body b"
    by (auto simp: well_formed_instance_def)
  let ?st0 = "initial_state start"
  let ?st1 = "?st0\<lparr>brace_balance := brace_balance ?st0 + 1,
                  template_text := template_text ?st0 @ lbraces,
                  current_index := current_index ?st0 + 2\<rparr>"
  let ?st2 = "?st1\<lparr>template_text := template_text ?st1 @ b,
                    current_index := current_index ?st1 + length b\<rparr>"
  let ?st3 = "?st2\<lparr>brace_balance := brace_balance ?st2 - 1,
                    template_text := template_text ?st2 @ rbraces,
                    current_index := current_index ?st2 + 2\<rparr>"
  have l2: "length lbraces = 2" by (simp add: lbraces_def ustr_def)
  have d: "drop (current_index ?st0) w = lbraces @ (b @ rbraces @ post)"
    using assms(1) t by (simp add: initial_state_def)
  have nc: "\<not> in_comment ?st0" by (simp add: initial_state_def)
  have s1: "scan_loop w ?st0 = scan_loop w ?st1" using d nc by (rule scan_open)
  from drop_after[OF d] l2 have d1: "drop (current_index ?st1) w = b @ (rbraces @ post)"
    by simp
  have s2: "scan_loop w ?st1 = scan_loop w ?st2"
    by (rule scan_body[OF bb _ _ d1]) (simp_all add: initial_state_def)
  from drop_after[OF d1] have d2: "drop (current_index ?st2) w = rbraces @ post" by simp
  have nc2: "\<not> in_comment ?st2" by (simp add: initial_state_def)
  note c = scan_close[OF d2 nc2]
  have "scan_step w ?st2 = Break ?st3" using c(1) by (simp add: initial_state_def)
  with c(2) have s3: "scan_loop w ?st2 = Some ?st3" by (subst scan_loop.simps) simp
  have "template_text ?st3 = t" using t by (simp add: initial_state_def)
  with s1 s2 s3 show ?thesis by simp
qed

subsection \<open>The field pattern\<close>

lemmas field_eval = literal_defs extract_field_def field_at_def after_delimiter_def
  after_name_def value_group_def delimiter_at_def ws_count_def isspace_def value_char_def
  strip_def Let_def

lemma strip_all_space: "list_all isspace g \<Longrightarrow> strip g = []"
proof -
  assume "list_all isspace g"
  then have d: "dropWhile isspace g = []" by (induction g) simp_all
  show ?thesis unfolding strip_def d by simp
qed

lemma try_down_Some: "try_down n h = Some g \<Longrightarrow> \<exists>k\<le>n. h k = Some g"
proof (induction n)
  case 0
  then show ?case by simp
next
  case (Suc n)
  show ?case
  proof (cases "h (Suc n)")
    case None
    with Suc.prems have "try_down n h = Some g" by simp
    from Suc.IH[OF this] show ?thesis by (auto intro: le_SucI)
  next
    case (Some r)
    with Suc.prems show ?thesis by auto
  qed
qed

lemma try_down_None: "try_down n h = None \<Longrightarrow> k \<le> n \<Longrightarrow> h k = None"
proof (induction n)
  case 0
  then show ?case by simp
next
  case (Suc n)
  from Suc.prems(1) have a: "h (Suc n) = None" "try_down n h = None"
    by (auto split: option.splits)
  show ?case
  proof (cases "k = Suc n")
    case True
    with a show ?thesis by simp
  next
    case False
    with Suc.prems(2) have "k \<le> n" by simp
    with a Suc.IH show ?thesis by simp
  qed
qed

lemma ws_prefix: "k \<le> ws_count r \<Longrightarrow> list_all isspace (take k r)"
proof -
  assume "k \<le> ws_count r"
  then have "take k r = take k (takeWhile isspace r)"
    by (metis ws_count_def takeWhile_dropWhile_id take_all take_append diff_is_0_eq take_0 append_Nil2 take_take min.absorb1)
  moreover have "list_all isspace (takeWhile isspace r)"
    by (simp add: list_all_iff) (meson set_takeWhileD)
  ultimately show ?thesis by (simp add: list_all_iff) (meson in_set_takeD)
qed

lemma ws_count_append: "list_all isspace ws \<Longrightarrow> length ws \<le> ws_count (ws @ r)"
  by (simp add: ws_count_def list_all_iff takeWhile_append2)

lemma try_down_ws_Some:
  assumes "try_down (ws_count r) h = Some g"
  shows "\<exists>ws. r = ws @ drop (length ws) r \<and> list_all isspace ws \<and> h (length ws) = Some g"
proof -
  from try_down_Some[OF assms] obtain k where k: "k \<le> ws_count r" "h k = Some g" by blast
  have "k \<le> length r" using k(1) by (simp add: ws_count_def) (meson le_trans length_takeWhile_le)
  then have "length (take k r) = k" by simp
  with k ws_prefix[OF k(1)] show ?thesis
    by (intro exI[of _ "take k r"]) simp
qed

lemma try_down_ws_complete:
  assumes "list_all isspace ws" "h (length ws) \<noteq> None"
  shows "try_down (ws_count (ws @ r)) h \<noteq> None"
  using try_down_None[of "ws_count (ws @ r)" h "length ws"] ws_count_append[OF assms(1)] assms(2)
  by blast


lemma value_group_Some:
  assumes "value_group r = Some g"
  shows "\<exists>ws rest. r = ws @ g @ rest \<and> list_all isspace ws \<and> g \<noteq> [] \<and>
           list_all value_char g \<and> (rest = [] \<or> \<not> value_char (hd rest))"
proof -
  from try_down_ws_Some[OF assms[unfolded value_group_def]] obtain ws where
    ws: "r = ws @ drop (length ws) r" "list_all isspace ws"
    and g: "(let g = takeWhile value_char (drop (length ws) r)
             in if g = [] then None else Some g) = Some g"
    by blast
  let ?r' = "drop (length ws) r"
  from g have g1: "g = takeWhile value_char ?r'" and g2: "g \<noteq> []"
    by (auto simp: Let_def split: if_splits)
  have "?r' = g @ dropWhile value_char ?r'" using g1 by simp
  with ws(1) have "r = ws @ g @ dropWhile value_char ?r'" by simp
  moreover have "list_all value_char g"
    unfolding g1 by (simp add: list_all_iff) (meson set_takeWhileD)
  moreover have "dropWhile value_char ?r' = [] \<or> \<not> value_char (hd (dropWhile value_char ?r'))"
    using hd_dropWhile by blast
  ultimately show ?thesis using ws(2) g2 by blast
qed

lemma value_group_complete:
  assumes "list_all isspace ws" "raw \<noteq> []" "list_all value_char raw"
  shows "value_group (ws @ raw @ rest) \<noteq> None"
  unfolding value_group_def
proof (rule try_down_ws_complete[OF assms(1)])
  from assms(2,3) obtain c cs where "raw = c # cs" "value_char c"
    by (cases raw) auto
  then show "(let g = takeWhile value_char (drop (length ws) (ws @ raw @ rest))
        in if g = [] then None else Some g) \<noteq> None"
    by simp
qed

lemma after_name_Some:
  assumes "after_name r = Some g"
  shows "\<exists>ws2 ws3 rest. r = ws2 @ ustr ''='' @ ws3 @ g @ rest \<and> list_all isspace ws2 \<and>
           list_all isspace ws3 \<and> g \<noteq> [] \<and>
           list_all value_char g \<and> (rest = [] \<or> \<not> value_char (hd rest))"
proof -
  from try_down_ws_Some[OF assms[unfolded after_name_def]] obtain ws2 where
    ws: "r = ws2 @ drop (length ws2) r" "list_all isspace ws2"
    and h: "(if take 1 (drop (length ws2) r) = ustr ''=''
             then value_group (drop 1 (drop (length ws2) r)) else None) = Some g"
    by blast
  let ?r' = "drop (length ws2) r"
  from h have e: "take 1 ?r' = ustr ''=''" and v: "value_group (drop 1 ?r') = Some g"
    by (auto split: if_splits)
  from e have r': "?r' = ustr ''='' @ drop 1 ?r'"
    by (metis append_take_drop_id)
  from value_group_Some[OF v] obtain ws3 rest where
    "drop 1 ?r' = ws3 @ g @ rest" "list_all isspace ws3" "g \<noteq> []"
    "list_all value_char g" "rest = [] \<or> \<not> value_char (hd rest)" by blast
  moreover from this(1) r' ws(1) have "r = ws2 @ ustr ''='' @ ws3 @ g @ rest" by simp
  ultimately show ?thesis using ws(2) by blast
qed

lemma after_name_complete:
  assumes "list_all isspace ws2" "list_all isspace ws3" "raw \<noteq> []" "list_all value_char raw"
  shows "after_name (ws2 @ ustr ''='' @ ws3 @ raw @ rest) \<noteq> None"
  unfolding after_name_def
proof (rule try_down_ws_complete[OF assms(1)])
  show "(if take 1 (drop (length ws2) (ws2 @ ustr ''='' @ ws3 @ raw @ rest)) = ustr ''=''
     then value_group (drop 1 (drop (length ws2) (ws2 @ ustr ''='' @ ws3 @ raw @ rest)))
     else None) \<noteq> None"
    using value_group_complete[OF assms(2,3,4), of rest] by (simp add: ustr_def)
qed

lemma after_delimiter_Some:
  assumes "after_delimiter f r = Some g"
  shows "\<exists>ws1 ws2 ws3 rest. r = ws1 @ f @ ws2 @ ustr ''='' @ ws3 @ g @ rest \<and>
           list_all isspace ws1 \<and> list_all isspace ws2 \<and>
           list_all isspace ws3 \<and> g \<noteq> [] \<and>
           list_all value_char g \<and> (rest = [] \<or> \<not> value_char (hd rest))"
proof -
  from try_down_ws_Some[OF assms[unfolded after_delimiter_def]] obtain ws1 where
    ws: "r = ws1 @ drop (length ws1) r" "list_all isspace ws1"
    and h: "(if prefix f (drop (length ws1) r)
             then after_name (drop (length f) (drop (length ws1) r)) else None) = Some g"
    by blast
  let ?r' = "drop (length ws1) r"
  from h have e: "prefix f ?r'" and v: "after_name (drop (length f) ?r') = Some g"
    by (auto split: if_splits)
  from e have r': "?r' = f @ drop (length f) ?r'"
    by (metis prefix_def append_eq_conv_conj)
  from after_name_Some[OF v] obtain ws2 ws3 rest where
    "drop (length f) ?r' = ws2 @ ustr ''='' @ ws3 @ g @ rest" "list_all isspace ws2"
    "list_all isspace ws3" "g \<noteq> []"
    "list_all value_char g" "rest = [] \<or> \<not> value_char (hd rest)" by blast
  moreover from this(1) r' ws(1) have "r = ws1 @ f @ ws2 @ ustr ''='' @ ws3 @ g @ rest"
    by simp
  ultimately show ?thesis using ws(2) by blast
qed

lemma after_delimiter_complete:
  assumes "list_all isspace ws1" "list_all isspace ws2" "list_all isspace ws3"
    "raw \<noteq> []" "list_all value_char raw"
  shows "after_delimiter f (ws1 @ f @ ws2 @ ustr ''='' @ ws3 @ raw @ rest) \<noteq> None"
  unfolding after_delimiter_def
proof (rule try_down_ws_complete[OF assms(1)])
  show "(if prefix f (drop (length ws1) (ws1 @ f @ ws2 @ ustr ''='' @ ws3 @ raw @ rest))
     then after_name (drop (length f)
            (drop (length ws1) (ws1 @ f @ ws2 @ ustr ''='' @ ws3 @ raw @ rest)))
     else None) \<noteq> None"
    using after_name_complete[OF assms(2,3,4,5), of rest] by simp
qed

lemma delimiter_at_Some:
  "delimiter_at s = Some r \<longleftrightarrow> (\<exists>d. (d = ustr ''|'' \<or> d = lbraces) \<and> s = d @ r)"
proof
  assume a: "delimiter_at s = Some r"
  show "\<exists>d. (d = ustr ''|'' \<or> d = lbraces) \<and> s = d @ r"
  proof (cases "take 1 s = ustr ''|''")
    case True
    with a have "r = drop 1 s" by (simp add: delimiter_at_def)
    with True have "s = ustr ''|'' @ r" by (metis append_take_drop_id)
    then show ?thesis by blast
  next
    case False
    with a have t: "take 2 s = lbraces" and "r = drop 2 s"
      by (auto simp: delimiter_at_def split: if_splits)
    then have "s = lbraces @ r" by (metis append_take_drop_id)
    then show ?thesis by blast
  qed
next
  assume "\<exists>d. (d = ustr ''|'' \<or> d = lbraces) \<and> s = d @ r"
  then show "delimiter_at s = Some r"
    by (auto simp: delimiter_at_def ustr_def lbraces_def)
qed

lemma field_at_Some:
  assumes "field_at f s = Some g"
  shows "\<exists>d ws1 ws2 ws3 rest.
        s = d @ ws1 @ f @ ws2 @ ustr ''='' @ ws3 @ g @ rest \<and>
        (d = ustr ''|'' \<or> d = lbraces) \<and>
        list_all isspace ws1 \<and> list_all isspace ws2 \<and> list_all isspace ws3 \<and>
        g \<noteq> [] \<and> list_all value_char g \<and>
        (rest = [] \<or> \<not> value_char (hd rest))"
proof -
  from assms obtain r where d: "delimiter_at s = Some r" and a: "after_delimiter f r = Some g"
    by (auto simp: field_at_def split: option.splits)
  from d obtain d' where d': "d' = ustr ''|'' \<or> d' = lbraces" "s = d' @ r"
    by (auto simp: delimiter_at_Some)
  from after_delimiter_Some[OF a] d' show ?thesis by blast
qed

lemma field_at_complete:
  assumes "s = d @ ws1 @ f @ ws2 @ ustr ''='' @ ws3 @ raw @ rest"
    and "d = ustr ''|'' \<or> d = lbraces"
    and "list_all isspace ws1" "list_all isspace ws2" "list_all isspace ws3"
    and "raw \<noteq> []" "list_all value_char raw"
  shows "field_at f s \<noteq> None"
proof -
  from assms(1,2) have "delimiter_at s = Some (ws1 @ f @ ws2 @ ustr ''='' @ ws3 @ raw @ rest)"
    unfolding delimiter_at_Some by blast
  with after_delimiter_complete[OF assms(3-7), of f rest] show ?thesis
    by (simp add: field_at_def)
qed

lemma is_assignment_field_at:
  assumes "is_assignment text f i raw"
  shows "i \<le> length text \<and> field_at f (drop i text) \<noteq> None"
proof -
  from assms have i: "i \<le> length text"
    unfolding is_assignment_def by (rule conjunct1)
  from assms have "\<exists>d ws1 ws2 ws3 rest.
        drop i text = d @ ws1 @ f @ ws2 @ ustr ''='' @ ws3 @ raw @ rest \<and>
        (d = ustr ''|'' \<or> d = lbraces) \<and>
        list_all isspace ws1 \<and> list_all isspace ws2 \<and> list_all isspace ws3 \<and>
        raw \<noteq> [] \<and> list_all value_char raw \<and>
        (rest = [] \<or> \<not> value_char (hd rest))"
    unfolding is_assignment_def by (rule conjunct2)
  then obtain d ws1 ws2 ws3 rest where
    s: "drop i text = d @ ws1 @ f @ ws2 @ ustr ''='' @ ws3 @ raw @ rest"
    and d: "d = ustr ''|'' \<or> d = lbraces"
    and w: "list_all isspace ws1" "list_all isspace ws2" "list_all isspace ws3"
      "raw \<noteq> []" "list_all value_char raw"
    by (elim exE conjE)
  from field_at_complete[OF s d w] i show ?thesis by (rule_tac conjI)
qed

lemma field_at_is_assignment:
  assumes "i \<le> length text" "field_at f (drop i text) = Some g"
  shows "is_assignment text f i g"
  unfolding is_assignment_def
  using assms(1) field_at_Some[OF assms(2)] by (rule conjI)

lemma strip_trimmed:
  "strip s = [] \<or> (\<not> isspace (hd (strip s)) \<and> \<not> isspace (last (strip s)))"
proof (cases "strip s = []")
  case True
  then show ?thesis by simp
next
  case False
  let ?a = "dropWhile isspace s"
  let ?b = "dropWhile isspace (rev ?a)"
  from False have b: "?b \<noteq> []" by (simp add: strip_def)
  then have hb: "\<not> isspace (hd ?b)" by (rule hd_dropWhile)
  have a: "?a \<noteq> []"
  proof
    assume "?a = []"
    then have "?b = []" by (simp only: rev.simps dropWhile.simps)
    with b show False by (rule notE)
  qed
  then have ha: "\<not> isspace (hd ?a)" by (rule hd_dropWhile)
  have "rev ?a = takeWhile isspace (rev ?a) @ ?b" by simp
  then have "last (rev ?a) = last ?b" using b by (metis last_appendR)
  then have "last ?b = hd ?a" using a by (simp add: last_rev)
  with ha hb b show ?thesis by (simp add: strip_def hd_rev last_rev)
qed

lemma value_char_set:
  "list_all value_char g \<Longrightarrow> 124 \<notin> set g \<and> 10 \<notin> set g \<and> 13 \<notin> set g \<and> 125 \<notin> set g"
  by (auto simp: list_all_iff value_char_def)

section \<open>The properties of the specification, settled on the code\<close>

text \<open>
  C1. Inside a comment span \<open><!--\<close> ... \<open>-->\<close> braces are copied but do not change
  the depth counter, so a \<open>}}\<close> inside a comment never ends the scan. The loop never
  sets the comment flag (its first test compares a non-empty slice with the empty
  string), and on the wikitext below the \<open>}}\<close> inside the comment brings the counter
  to 0: the scan stops there and returns the text cut off inside the comment.
\<close>

theorem comment_brace_ends_scan:
  "extract_template
     (lbraces @ template_name @ ustr ''|a=<!-- }} -->|'' @ english_name_field @ ustr ''=Eve}}'')
     template_name
   = Inr (lbraces @ template_name @ ustr ''|a=<!-- }}'')"
  by (simp add: literal_defs extract_template_def template_start_at_def ws_count_def
      isspace_def initial_state_def scan_step_def Let_def scan_loop.simps)

text \<open>
  C2. The filter keeps an asset exactly when its name contains the keyword, ends with
  \<open>.png\<close> and contains none of the exclusion substrings; on the two names of the
  example it keeps the first. The second exclusion literal of the source is the empty
  string, which every name contains: the source keeps no image at all, where the filter
  of the specification keeps the first.
\<close>

theorem filter_assets_keeps_nothing:
  "filter_assets
     [\<lparr>name = ustr ''x_'' @ id_photo @ ustr ''.png'', url = []\<rparr>,
      \<lparr>name = ustr ''x_'' @ id_photo @ ustr ''_'' @ excluded_costume @ ustr ''.png'', url = []\<rparr>]
     id_photo = []
   \<and> filter_assets_spec
     [\<lparr>name = ustr ''x_'' @ id_photo @ ustr ''.png'', url = []\<rparr>,
      \<lparr>name = ustr ''x_'' @ id_photo @ ustr ''_'' @ excluded_costume @ ustr ''.png'', url = []\<rparr>]
     id_photo [excluded_costume]
     = [\<lparr>name = ustr ''x_'' @ id_photo @ ustr ''.png'', url = []\<rparr>]"
  by (simp add: filter_assets_def filtered_images_empty filter_assets_spec_def endswith_def
      literal_defs suffix_def)

text \<open>
  C3, as the code has it. When the first occurrence of the opening marker starts a
  well-formed instance of the template (its outer delimiters around a body in which
  braces occur only as nested pairs) that contains no comment opener, the extraction
  returns exactly that instance, outer delimiters included.
\<close>

theorem extract_template_first_instance:
  assumes "re_search (template_start_at tname) w 0 = Some (start, ())"
    and "drop start w = t @ post"
    and "well_formed_instance t"
    and "\<not> str_contains (ustr ''<!--'') t"
  shows "extract_template w tname = Inr t \<and> prefix lbraces t \<and> suffix rbraces t"
proof -
  from scan_well_formed[OF assms(2,3)] assms(1) have "extract_template w tname = Inr t"
    by (auto simp: extract_template_def)
  moreover from assms(3) have "prefix lbraces t \<and> suffix rbraces t"
    by (auto simp: well_formed_instance_def suffix_def)
  ultimately show ?thesis by simp
qed

theorem extract_template_first_instance_witness:
  "re_search (template_start_at (ustr ''T'')) (ustr ''{{T|a={{b}}|c=d}}'') 0 = Some (0, ())
   \<and> drop 0 (ustr ''{{T|a={{b}}|c=d}}'') = ustr ''{{T|a={{b}}|c=d}}'' @ []
   \<and> well_formed_instance (ustr ''{{T|a={{b}}|c=d}}'')
   \<and> \<not> str_contains (ustr ''<!--'') (ustr ''{{T|a={{b}}|c=d}}'')
   \<and> extract_template (ustr ''{{T|a={{b}}|c=d}}'') (ustr ''T'') = Inr (ustr ''{{T|a={{b}}|c=d}}'')"
proof -
  have r: "re_search (template_start_at (ustr ''T'')) (ustr ''{{T|a={{b}}|c=d}}'') 0 = Some (0, ())"
    by (simp add: scan_eval)
  have d: "drop 0 (ustr ''{{T|a={{b}}|c=d}}'') = ustr ''{{T|a={{b}}|c=d}}'' @ []" by simp
  have b1: "balanced_body (ustr ''b'')"
    by (simp add: ustr_def balanced_body.intros)
  have b2: "balanced_body (ustr ''|c=d'')"
    by (simp add: ustr_def balanced_body.intros)
  have "balanced_body (lbraces @ ustr ''b'' @ rbraces @ ustr ''|c=d'')"
    using b1 b2 by (rule balanced_body.nested)
  then have "balanced_body (ustr ''T|a={{b}}|c=d'')"
    by (simp add: literal_defs balanced_body.intros)
  moreover have "ustr ''{{T|a={{b}}|c=d}}'' = lbraces @ ustr ''T|a={{b}}|c=d'' @ rbraces"
    by (simp add: literal_defs)
  ultimately have w: "well_formed_instance (ustr ''{{T|a={{b}}|c=d}}'')"
    unfolding well_formed_instance_def by blast
  have c: "\<not> str_contains (ustr ''<!--'') (ustr ''{{T|a={{b}}|c=d}}'')"
    by (simp add: ustr_def)
  from extract_template_first_instance[OF r d w c] r d w c show ?thesis by simp
qed

text \<open>
  C3, as stated, fails: the wikitext below contains a well-formed instance of the
  template \<open>T\<close> (its last seven characters), but the scan starts at the first opening
  marker, which is never closed, and the extraction fails.
\<close>

theorem extract_template_misses_later_instance:
  "ustr ''{{T|x {{T|a}}'' = ustr ''{{T|x '' @ ustr ''{{T|a}}''
   \<and> well_formed_instance (ustr ''{{T|a}}'')
   \<and> template_start_at (ustr ''T'') (ustr ''{{T|a}}'') = Some ()
   \<and> extract_template (ustr ''{{T|x {{T|a}}'') (ustr ''T'') = Inl Unbalanced"
proof -
  have "balanced_body (ustr ''T|a'')"
    by (simp add: ustr_def balanced_body.intros)
  moreover have "ustr ''{{T|a}}'' = lbraces @ ustr ''T|a'' @ rbraces"
    by (simp add: literal_defs)
  ultimately have w: "well_formed_instance (ustr ''{{T|a}}'')"
    unfolding well_formed_instance_def by blast
  have e: "extract_template (ustr ''{{T|x {{T|a}}'') (ustr ''T'') = Inl Unbalanced"
    by (simp add: scan_eval)
  have m: "template_start_at (ustr ''T'') (ustr ''{{T|a}}'') = Some ()"
    by (simp add: scan_eval)
  from w e m show ?thesis by (simp add: ustr_def)
qed

text \<open>
  C4. When the scan succeeds, the depth counter is 0 before scanning starts, at least 0
  in every state the loop visits, greater than 0 in every state strictly between the
  first and the last, and 0 again in the state in which the loop is left, whose
  position is the one immediately after the returned span.
\<close>

theorem brace_depth_trace:
  assumes "extract_template w tname = Inr t"
  shows "\<exists>start. re_search (template_start_at tname) w 0 = Some (start, ()) \<and>
     brace_balance (hd (scan_trace w (initial_state start))) = 0 \<and>
     current_index (hd (scan_trace w (initial_state start))) = start \<and>
     (\<forall>s\<in>set (scan_trace w (initial_state start)). 0 \<le> brace_balance s) \<and>
     (\<forall>s\<in>set (butlast (tl (scan_trace w (initial_state start)))). 0 < brace_balance s) \<and>
     brace_balance (last (scan_trace w (initial_state start))) = 0 \<and>
     current_index (last (scan_trace w (initial_state start))) = start + length t \<and>
     template_text (last (scan_trace w (initial_state start))) = t"
proof -
  from extract_template_Inr[OF assms] obtain start st' where
    r: "re_search (template_start_at tname) w 0 = Some (start, ())"
    and b: "take 2 (drop start w) = lbraces"
    and l: "scan_loop w (initial_state start) = Some st'" and t: "template_text st' = t"
    by blast
  note f = scan_from_start[OF b]
  have "\<forall>s\<in>set (butlast (tl (scan_trace w (initial_state start)))). 0 < brace_balance s"
    using f(2) by fastforce
  with r f(1) f(3) f(5)[OF l] t show ?thesis
    by (intro exI[of _ start]) (simp add: initial_state_def)
qed

text \<open>The example of C4: a template with a nested template, scanned from 0.\<close>

theorem brace_depth_trace_witness:
  "extract_template (ustr ''{{T|a={{b}}|c=d}}'') (ustr ''T'') = Inr (ustr ''{{T|a={{b}}|c=d}}'')
   \<and> (\<exists>start. re_search (template_start_at (ustr ''T'')) (ustr ''{{T|a={{b}}|c=d}}'') 0 = Some (start, ()) \<and>
     brace_balance (hd (scan_trace (ustr ''{{T|a={{b}}|c=d}}'') (initial_state start))) = 0 \<and>
     current_index (hd (scan_trace (ustr ''{{T|a={{b}}|c=d}}'') (initial_state start))) = start \<and>
     (\<forall>s\<in>set (scan_trace (ustr ''{{T|a={{b}}|c=d}}'') (initial_state start)). 0 \<le> brace_balance s) \<and>
     (\<forall>s\<in>set (butlast (tl (scan_trace (ustr ''{{T|a={{b}}|c=d}}'') (initial_state start)))). 0 < brace_balance s) \<and>
     brace_balance (last (scan_trace (ustr ''{{T|a={{b}}|c=d}}'') (initial_state start))) = 0 \<and>
     current_index (last (scan_trace (ustr ''{{T|a={{b}}|c=d}}'') (initial_state start))) = start + length (ustr ''{{T|a={{b}}|c=d}}'') \<and>
     template_text (last (scan_trace (ustr ''{{T|a={{b}}|c=d}}'') (initial_state start))) = ustr ''{{T|a={{b}}|c=d}}'')"
proof -
  have h: "extract_template (ustr ''{{T|a={{b}}|c=d}}'') (ustr ''T'')
           = Inr (ustr ''{{T|a={{b}}|c=d}}'')"
    by (simp add: scan_eval)
  from brace_depth_trace[OF h] h show ?thesis by (rule_tac conjI)
qed

text \<open>
  C5. The extraction fails as unbalanced exactly when the opening marker is found and
  the scan reaches the end of the input with the depth counter still greater than 0.
\<close>

theorem unbalanced_iff:
  "extract_template w tname = Inl Unbalanced \<longleftrightarrow>
     (\<exists>start. re_search (template_start_at tname) w 0 = Some (start, ()) \<and>
        length w \<le> current_index (last (scan_trace w (initial_state start))) \<and>
        0 < brace_balance (last (scan_trace w (initial_state start))))"
proof
  assume "extract_template w tname = Inl Unbalanced"
  then obtain start where r: "re_search (template_start_at tname) w 0 = Some (start, ())"
    and l: "scan_loop w (initial_state start) = None"
    by (auto simp: extract_template_Unbalanced)
  from re_search_Some[OF r] have "template_start_at tname (drop start w) = Some ()" by simp
  then have b: "take 2 (drop start w) = lbraces" by (rule template_start_at_braces)
  from scan_from_start(4)[OF b l] r show
    "\<exists>start. re_search (template_start_at tname) w 0 = Some (start, ()) \<and>
        length w \<le> current_index (last (scan_trace w (initial_state start))) \<and>
        0 < brace_balance (last (scan_trace w (initial_state start)))"
    by (intro exI[of _ start]) simp
next
  assume "\<exists>start. re_search (template_start_at tname) w 0 = Some (start, ()) \<and>
        length w \<le> current_index (last (scan_trace w (initial_state start))) \<and>
        0 < brace_balance (last (scan_trace w (initial_state start)))"
  then obtain start where r: "re_search (template_start_at tname) w 0 = Some (start, ())"
    and p: "0 < brace_balance (last (scan_trace w (initial_state start)))" by blast
  from re_search_Some[OF r] have "template_start_at tname (drop start w) = Some ()" by simp
  then have b: "take 2 (drop start w) = lbraces" by (rule template_start_at_braces)
  have "scan_loop w (initial_state start) = None"
  proof (cases "scan_loop w (initial_state start)")
    case None then show ?thesis .
  next
    case (Some st')
    from scan_from_start(5)[OF b Some] p show ?thesis by simp
  qed
  with r show "extract_template w tname = Inl Unbalanced"
    by (auto simp: extract_template_Unbalanced)
qed

text \<open>The example of C5: a template that is never closed.\<close>

theorem unbalanced_iff_witness:
  "extract_template (ustr ''{{T|unterminated'') (ustr ''T'') = Inl Unbalanced
   \<and> (\<exists>start. re_search (template_start_at (ustr ''T'')) (ustr ''{{T|unterminated'') 0 = Some (start, ()) \<and>
        length (ustr ''{{T|unterminated'') \<le> current_index (last (scan_trace (ustr ''{{T|unterminated'') (initial_state start))) \<and>
        0 < brace_balance (last (scan_trace (ustr ''{{T|unterminated'') (initial_state start))))"
proof -
  have h: "extract_template (ustr ''{{T|unterminated'') (ustr ''T'') = Inl Unbalanced"
    by (simp add: scan_eval)
  from iffD1[OF unbalanced_iff h] h show ?thesis by (rule_tac conjI)
qed

text \<open>
  C6. The field extraction returns no value exactly when the text has no assignment of
  the field. When it returns a value, the text has an assignment of the field at some
  position with some raw value, no assignment of the field starts at an earlier
  position, the raw value contains none of \<open>|\<close>, newline, carriage return and \<open>}\<close>,
  and the returned value is the raw value with the whitespace at both ends removed.
\<close>

theorem extract_field_first_assignment:
  "(extract_field text field_name = None \<longleftrightarrow>
      (\<forall>i raw. \<not> is_assignment text field_name i raw)) \<and>
   (\<forall>v. extract_field text field_name = Some v \<longrightarrow>
      (\<exists>i raw. is_assignment text field_name i raw \<and>
         (\<forall>j<i. \<forall>r. \<not> is_assignment text field_name j r) \<and>
         124 \<notin> set raw \<and> 10 \<notin> set raw \<and> 13 \<notin> set raw \<and> 125 \<notin> set raw \<and>
         v = strip raw \<and>
         (v = [] \<or> (\<not> isspace (hd v) \<and> \<not> isspace (last v)))))"
proof (intro conjI allI impI)
  show "extract_field text field_name = None \<longleftrightarrow>
      (\<forall>i raw. \<not> is_assignment text field_name i raw)"
  proof
    assume "extract_field text field_name = None"
    then have n: "re_search (field_at field_name) text 0 = None"
      by (auto simp: extract_field_def split: option.splits)
    show "\<forall>i raw. \<not> is_assignment text field_name i raw"
    proof (intro allI notI)
      fix i raw assume "is_assignment text field_name i raw"
      from is_assignment_field_at[OF this] re_search_None[OF n, of i] show False by simp
    qed
  next
    assume a: "\<forall>i raw. \<not> is_assignment text field_name i raw"
    show "extract_field text field_name = None"
    proof (cases "re_search (field_at field_name) text 0")
      case None
      then show ?thesis by (simp add: extract_field_def)
    next
      case (Some p)
      obtain i g where p: "p = (i, g)" by (cases p)
      from re_search_Some[OF Some[unfolded p]]
      have "i \<le> length text" "field_at field_name (drop i text) = Some g" by simp_all
      from field_at_is_assignment[OF this] a show ?thesis by blast
    qed
  qed
next
  fix v assume "extract_field text field_name = Some v"
  then obtain i g where s: "re_search (field_at field_name) text 0 = Some (i, g)"
    and v: "v = strip g"
    by (auto simp: extract_field_def split: option.splits)
  from re_search_Some[OF s]
  have i: "i \<le> length text" and f: "field_at field_name (drop i text) = Some g"
    and e: "\<forall>j<i. field_at field_name (drop j text) = None" by simp_all
  have asg: "is_assignment text field_name i g" using i f by (rule field_at_is_assignment)
  have first: "\<forall>j<i. \<forall>r. \<not> is_assignment text field_name j r"
    using e is_assignment_field_at by blast
  from asg have "list_all value_char g" unfolding is_assignment_def by blast
  then have chars: "124 \<notin> set g \<and> 10 \<notin> set g \<and> 13 \<notin> set g \<and> 125 \<notin> set g"
    by (rule value_char_set)
  have "v = [] \<or> (\<not> isspace (hd v) \<and> \<not> isspace (last v))"
    unfolding v by (rule strip_trimmed)
  with asg first chars v
  show "\<exists>i raw. is_assignment text field_name i raw \<and>
         (\<forall>j<i. \<forall>r. \<not> is_assignment text field_name j r) \<and>
         124 \<notin> set raw \<and> 10 \<notin> set raw \<and> 13 \<notin> set raw \<and> 125 \<notin> set raw \<and>
         v = strip raw \<and>
         (v = [] \<or> (\<not> isspace (hd v) \<and> \<not> isspace (last v)))"
    by blast
qed

text \<open>The example of C6: the value is trimmed and stops at the next \<open>|\<close>.\<close>

theorem extract_field_first_assignment_witness:
  "extract_field (ustr ''{{T|name = Alpha Beta |x=1}}'') (ustr ''name'')
     = Some (ustr ''Alpha Beta'')
   \<and> (\<exists>i raw. is_assignment (ustr ''{{T|name = Alpha Beta |x=1}}'') (ustr ''name'') i raw \<and>
         (\<forall>j<i. \<forall>r. \<not> is_assignment (ustr ''{{T|name = Alpha Beta |x=1}}'') (ustr ''name'') j r) \<and>
         124 \<notin> set raw \<and> 10 \<notin> set raw \<and> 13 \<notin> set raw \<and> 125 \<notin> set raw \<and>
         ustr ''Alpha Beta'' = strip raw)
   \<and> extract_field (ustr ''{{T|x=1}}'') (ustr ''name'') = None
   \<and> (\<forall>i raw. \<not> is_assignment (ustr ''{{T|x=1}}'') (ustr ''name'') i raw)"
proof -
  have h: "extract_field (ustr ''{{T|name = Alpha Beta |x=1}}'') (ustr ''name'')
           = Some (ustr ''Alpha Beta'')"
    by (simp add: field_eval)
  have n: "extract_field (ustr ''{{T|x=1}}'') (ustr ''name'') = None"
    by (simp add: field_eval)
  note t1 = extract_field_first_assignment[of "ustr ''{{T|name = Alpha Beta |x=1}}''" "ustr ''name''"]
  note t2 = extract_field_first_assignment[of "ustr ''{{T|x=1}}''" "ustr ''name''"]
  from t1 h have a1: "\<exists>i raw. is_assignment (ustr ''{{T|name = Alpha Beta |x=1}}'') (ustr ''name'') i raw \<and>
         (\<forall>j<i. \<forall>r. \<not> is_assignment (ustr ''{{T|name = Alpha Beta |x=1}}'') (ustr ''name'') j r) \<and>
         124 \<notin> set raw \<and> 10 \<notin> set raw \<and> 13 \<notin> set raw \<and> 125 \<notin> set raw \<and>
         ustr ''Alpha Beta'' = strip raw"
    by blast
  from t2 n have a2: "\<forall>i raw. \<not> is_assignment (ustr ''{{T|x=1}}'') (ustr ''name'') i raw"
    by blast
  show ?thesis by (rule conjI[OF h conjI[OF a1 conjI[OF n a2]]])
qed

text \<open>
  C7, as the code has it. The original name is kept when the lookup gives no wikitext,
  when the template extraction fails, when the field is not found, and also when the
  field is found with an empty trimmed value; in every other case the file name is the
  sanitized field value followed by \<open>.png\<close>.
\<close>

theorem resolve_name_cases:
  "(site (character_page_title (name img) keyword) = JsonDecodeError \<or>
    site (character_page_title (name img) keyword) = ErrorData \<or>
    site (character_page_title (name img) keyword) = Data []
      \<longrightarrow> resolve_name lower site img keyword = name img) \<and>
   (\<forall>w e. site (character_page_title (name img) keyword) = Data w \<and>
      extract_template w template_name = Inl e
      \<longrightarrow> resolve_name lower site img keyword = name img) \<and>
   (\<forall>w t. site (character_page_title (name img) keyword) = Data w \<and>
      extract_template w template_name = Inr t \<and>
      extract_field t english_name_field = None
      \<longrightarrow> resolve_name lower site img keyword = name img) \<and>
   (\<forall>w t. site (character_page_title (name img) keyword) = Data w \<and>
      extract_template w template_name = Inr t \<and>
      extract_field t english_name_field = Some []
      \<longrightarrow> resolve_name lower site img keyword = name img) \<and>
   (\<forall>w t v. site (character_page_title (name img) keyword) = Data w \<and> w \<noteq> [] \<and>
      extract_template w template_name = Inr t \<and>
      extract_field t english_name_field = Some v \<and> v \<noteq> []
      \<longrightarrow> resolve_name lower site img keyword = sanitize lower v @ ustr ''.png'')"
  by (auto simp: resolve_name_def get_template_field_def falsy_def Let_def)

theorem resolve_name_cases_witness:
  "john_doe_site (character_page_title (name id_photo_image) id_photo) =
     Data (lbraces @ template_name @ ustr ''|'' @ english_name_field @ ustr ''=John Doe}}'')
   \<and> extract_template
       (lbraces @ template_name @ ustr ''|'' @ english_name_field @ ustr ''=John Doe}}'')
       template_name
     = Inr (lbraces @ template_name @ ustr ''|'' @ english_name_field @ ustr ''=John Doe}}'')
   \<and> extract_field
       (lbraces @ template_name @ ustr ''|'' @ english_name_field @ ustr ''=John Doe}}'')
       english_name_field = Some (ustr ''John Doe'')
   \<and> resolve_name ascii_lower john_doe_site id_photo_image id_photo = ustr ''john_doe.png''
   \<and> error_site (character_page_title (name id_photo_image) id_photo) = ErrorData
   \<and> resolve_name ascii_lower error_site id_photo_image id_photo
     = ustr ''A_'' @ id_photo @ ustr ''.png''"
proof -
  let ?w = "lbraces @ template_name @ ustr ''|'' @ english_name_field @ ustr ''=John Doe}}''"
  have s: "john_doe_site (character_page_title (name id_photo_image) id_photo) = Data ?w"
    by (simp add: john_doe_site_def)
  have n: "?w \<noteq> []" by (simp add: literal_defs)
  have t: "extract_template ?w template_name = Inr ?w" by (simp add: scan_eval)
  have f: "extract_field ?w english_name_field = Some (ustr ''John Doe'')"
    by (simp add: field_eval)
  have v: "ustr ''John Doe'' \<noteq> []" by (simp add: ustr_def)
  have z: "sanitize ascii_lower (ustr ''John Doe'') @ ustr ''.png'' = ustr ''john_doe.png''"
    by (simp add: sanitize_filter ascii_lower_def ustr_def reserved_def isspace_def)
  have e: "error_site (character_page_title (name id_photo_image) id_photo) = ErrorData"
    by (simp add: error_site_def)
  note c1 = resolve_name_cases[of john_doe_site id_photo_image id_photo ascii_lower]
  note c2 = resolve_name_cases[of error_site id_photo_image id_photo ascii_lower]
  from c1 s n t f v have "resolve_name ascii_lower john_doe_site id_photo_image id_photo
      = sanitize ascii_lower (ustr ''John Doe'') @ ustr ''.png''" by blast
  moreover from c2 e have "resolve_name ascii_lower error_site id_photo_image id_photo
      = name id_photo_image" by blast
  ultimately show ?thesis using s t f e z by (simp add: id_photo_image_def)
qed

text \<open>
  C7, as stated, fails: on a page whose template gives the field a blank value the
  lookup has wikitext, the template extraction succeeds and the field extraction returns
  a value (the empty string), yet the file name is the original name and not the
  sanitized value followed by \<open>.png\<close>.
\<close>

theorem resolve_name_blank_value_falls_back:
  "blank_name_site (character_page_title (name id_photo_image) id_photo) =
     Data (lbraces @ template_name @ ustr ''|'' @ english_name_field @ ustr ''= |x=1}}'')
   \<and> extract_template
       (lbraces @ template_name @ ustr ''|'' @ english_name_field @ ustr ''= |x=1}}'')
       template_name
     = Inr (lbraces @ template_name @ ustr ''|'' @ english_name_field @ ustr ''= |x=1}}'')
   \<and> extract_field
       (lbraces @ template_name @ ustr ''|'' @ english_name_field @ ustr ''= |x=1}}'')
       english_name_field = Some []
   \<and> resolve_name ascii_lower blank_name_site id_photo_image id_photo = name id_photo_image
   \<and> name id_photo_image \<noteq> sanitize ascii_lower [] @ ustr ''.png''"
proof -
  let ?w = "lbraces @ template_name @ ustr ''|'' @ english_name_field @ ustr ''= |x=1}}''"
  have s: "blank_name_site (character_page_title (name id_photo_image) id_photo) = Data ?w"
    by (simp add: blank_name_site_def)
  have t: "extract_template ?w template_name = Inr ?w" by (simp add: scan_eval)
  have f: "extract_field ?w english_name_field = Some []" by (simp add: field_eval)
  have r: "resolve_name ascii_lower blank_name_site id_photo_image id_photo
           = name id_photo_image"
    using s t f by (simp add: resolve_name_def get_template_field_def falsy_def Let_def)
  have d: "name id_photo_image \<noteq> sanitize ascii_lower [] @ ustr ''.png''"
    by (simp add: sanitize_filter ascii_lower_def id_photo_image_def literal_defs)
  from s t f r d show ?thesis by simp
qed

text \<open>
  C8, as the code has it. The page title is the namespace token followed by the asset
  name from which \<open>str.replace\<close> has removed the occurrences of keyword + \<open>.png\<close>.
  When that string does not occur in the name deprived of its last character (so that
  its only possible occurrence is the suffix), this is the name with the suffix stripped.
\<close>

theorem page_title_strips_suffix:
  assumes "\<not> str_contains (keyword @ ustr ''.png'') (butlast original_name)"
  shows "character_page_title original_name keyword =
         namespace_prefix @ strip_suffix (keyword @ ustr ''.png'') original_name"
proof -
  have ne: "keyword @ ustr ''.png'' \<noteq> []" by (simp add: ustr_def)
  have only: "\<forall>i\<le>length original_name.
      prefix (keyword @ ustr ''.png'') (drop i original_name) \<longrightarrow>
      i + length (keyword @ ustr ''.png'') = length original_name"
    using assms occurrence_before_end by blast
  have "str_replace original_name (keyword @ ustr ''.png'') [] =
        replace_nonempty (keyword @ ustr ''.png'') [] original_name"
    unfolding str_replace_def using ne by (simp only: if_False)
  then show ?thesis
    unfolding character_page_title_def
    using replace_only_suffix[OF ne only] by simp
qed

theorem page_title_strips_suffix_witness:
  "\<not> str_contains (id_photo @ ustr ''.png'') (butlast (ustr ''A_'' @ id_photo @ ustr ''.png''))
   \<and> character_page_title (ustr ''A_'' @ id_photo @ ustr ''.png'') id_photo
     = namespace_prefix @ ustr ''A_''"
proof -
  have h: "\<not> str_contains (id_photo @ ustr ''.png'')
             (butlast (ustr ''A_'' @ id_photo @ ustr ''.png''))"
    by (simp add: literal_defs)
  have "strip_suffix (id_photo @ ustr ''.png'') (ustr ''A_'' @ id_photo @ ustr ''.png'')
        = ustr ''A_''"
    by (simp add: strip_suffix_def literal_defs suffix_def)
  with h page_title_strips_suffix[OF h] show ?thesis by simp
qed

text \<open>
  C8, as stated, fails: an occurrence of keyword + \<open>.png\<close> inside the name is removed
  as well, so the title differs from the one obtained by stripping the suffix only.
\<close>

theorem page_title_removes_inner_occurrence:
  "character_page_title (ustr ''x_'' @ id_photo @ ustr ''.png_'' @ id_photo @ ustr ''.png'')
     id_photo = namespace_prefix @ ustr ''x__''
   \<and> namespace_prefix @ strip_suffix (id_photo @ ustr ''.png'')
        (ustr ''x_'' @ id_photo @ ustr ''.png_'' @ id_photo @ ustr ''.png'')
     = namespace_prefix @ ustr ''x_'' @ id_photo @ ustr ''.png_''
   \<and> namespace_prefix @ ustr ''x__''
     \<noteq> namespace_prefix @ ustr ''x_'' @ id_photo @ ustr ''.png_''"
  by (simp add: character_page_title_def str_replace_def literal_defs strip_suffix_def
      replace_nonempty.simps suffix_def)

text \<open>
  C9, as the code has it. The sanitized name is non-empty exactly when the lowercased
  input has a character other than \<open>.\<close>; no guard makes the result non-empty.
\<close>

theorem sanitize_nonempty_iff:
  "sanitize lower s \<noteq> [] \<longleftrightarrow> (\<exists>c\<in>set (lower s). c \<noteq> 46)"
  by (simp add: sanitize_filter sub_runs_empty_iff filter_empty_conv)

theorem sanitize_nonempty_iff_witness:
  "(\<exists>c\<in>set (ascii_lower (ustr ''Alpha Beta.Gamma'')). c \<noteq> 46)
   \<and> sanitize ascii_lower (ustr ''Alpha Beta.Gamma'') \<noteq> []
   \<and> sanitize ascii_lower (ustr ''Alpha Beta.Gamma'') = ustr ''alpha_betagamma''"
proof -
  have v: "sanitize ascii_lower (ustr ''Alpha Beta.Gamma'') = ustr ''alpha_betagamma''"
    by (simp add: sanitize_filter ascii_lower_def ustr_def reserved_def isspace_def)
  then have "sanitize ascii_lower (ustr ''Alpha Beta.Gamma'') \<noteq> []"
    by (simp add: ustr_def)
  with sanitize_nonempty_iff[of ascii_lower "ustr ''Alpha Beta.Gamma''"] v show ?thesis
    by blast
qed

text \<open>
  C9, as stated, fails: the one-character name \<open>.\<close> is not empty and its sanitized
  form is.
\<close>

theorem sanitize_single_dot_empty:
  "ustr ''.'' \<noteq> [] \<and> sanitize ascii_lower (ustr ''.'') = []"
  by (simp add: sanitize_filter ascii_lower_def ustr_def)

text \<open>
  C10. When the value group matched for the field consists of whitespace only, the
  trimmed value is empty, the lookup returns the empty string, and the file name is the
  original name: the sanitization branch is not taken.
\<close>

theorem blank_field_value_falls_back:
  assumes "site (character_page_title (name img) keyword) = Data w" and "w \<noteq> []"
    and "extract_template w template_name = Inr t"
    and "re_search (field_at english_name_field) t 0 = Some (i, g)"
    and "list_all isspace g"
  shows "extract_field t english_name_field = Some [] \<and>
         get_template_field site (character_page_title (name img) keyword)
           english_name_field = Inr [] \<and>
         resolve_name lower site img keyword = name img"
proof -
  from assms(4,5) have f: "extract_field t english_name_field = Some []"
    by (simp add: extract_field_def strip_all_space)
  with assms(1,2,3) have g: "get_template_field site
      (character_page_title (name img) keyword) english_name_field = Inr []"
    by (simp add: get_template_field_def)
  then have "resolve_name lower site img keyword = name img"
    by (simp add: resolve_name_def falsy_def Let_def)
  with f g show ?thesis by simp
qed

theorem blank_field_value_falls_back_witness:
  "blank_name_site (character_page_title (name id_photo_image) id_photo) =
     Data (lbraces @ template_name @ ustr ''|'' @ english_name_field @ ustr ''= |x=1}}'')
   \<and> lbraces @ template_name @ ustr ''|'' @ english_name_field @ ustr ''= |x=1}}'' \<noteq> []
   \<and> extract_template
       (lbraces @ template_name @ ustr ''|'' @ english_name_field @ ustr ''= |x=1}}'')
       template_name
     = Inr (lbraces @ template_name @ ustr ''|'' @ english_name_field @ ustr ''= |x=1}}'')
   \<and> re_search (field_at english_name_field)
       (lbraces @ template_name @ ustr ''|'' @ english_name_field @ ustr ''= |x=1}}'') 0
     = Some (7, ustr '' '')
   \<and> list_all isspace (ustr '' '')
   \<and> resolve_name ascii_lower blank_name_site id_photo_image id_photo
     = ustr ''A_'' @ id_photo @ ustr ''.png''"
proof -
  let ?w = "lbraces @ template_name @ ustr ''|'' @ english_name_field @ ustr ''= |x=1}}''"
  have s: "blank_name_site (character_page_title (name id_photo_image) id_photo) = Data ?w"
    by (simp add: blank_name_site_def)
  have n: "?w \<noteq> []" by (simp add: literal_defs)
  have t: "extract_template ?w template_name = Inr ?w" by (simp add: scan_eval)
  have m: "re_search (field_at english_name_field) ?w 0 = Some (7, ustr '' '')"
    by (simp add: field_eval)
  have b: "list_all isspace (ustr '' '')" by (simp add: ustr_def isspace_def)
  from blank_field_value_falls_back[where site = blank_name_site and img = id_photo_image
      and keyword = id_photo and lower = ascii_lower, OF s n t m b] s n t m b
  show ?thesis by (simp add: id_photo_image_def)
qed

end
